theory Spec2Isabelle
  imports Main "HOL-Library.AList"
begin

section \<open>Text, patterns and values\<close>

text \<open>
  The plan parser and the task fetching unit of the LLMCompiler
  (\<^verbatim>\<open>compiler/output_parser.py\<close>, \<^verbatim>\<open>compiler/task_fetching.py\<close>) work on Python
  strings with three regular expressions. A string is a list of characters; the
  character classes are the ASCII ones (\<^verbatim>\<open>\d\<close> is \<^verbatim>\<open>0-9\<close>, \<^verbatim>\<open>\w\<close> is
  \<^verbatim>\<open>[A-Za-z0-9_]\<close>), so the model speaks about ASCII plan text. Python integers are
  unbounded and are modelled by \<^typ>\<open>int\<close>.
\<close>

abbreviation NL :: char where
  "NL \<equiv> CHR 0x0A"

definition is_digit :: "char \<Rightarrow> bool" where
  "is_digit c = (c \<in> set ''0123456789'')"

definition is_word :: "char \<Rightarrow> bool" where
  "is_word c = (c \<in> set ''abcdefghijklmnopqrstuvwxyzABCDEFGHIJKLMNOPQRSTUVWXYZ0123456789_'')"

text \<open>\<^verbatim>\<open>str.strip()\<close> removes the characters for which \<^verbatim>\<open>str.isspace()\<close> holds.\<close>

definition is_space :: "char \<Rightarrow> bool" where
  "is_space c = (c \<in> {CHR '' '', CHR 0x09, CHR 0x0A, CHR 0x0B, CHR 0x0C, CHR 0x0D,
                        CHR 0x1C, CHR 0x1D, CHR 0x1E, CHR 0x1F})"

definition rstrip :: "(char \<Rightarrow> bool) \<Rightarrow> string \<Rightarrow> string" where
  "rstrip p s = rev (dropWhile p (rev s))"

definition strip :: "string \<Rightarrow> string" where
  "strip s = rstrip is_space (dropWhile is_space s)"

text \<open>\<^verbatim>\<open>int(ds)\<close> on a run of decimal digits.\<close>

definition digit_val :: "char \<Rightarrow> int" where
  "digit_val c = int (of_char c) - 48"

definition int_of_digits :: "string \<Rightarrow> int" where
  "int_of_digits ds = foldl (\<lambda>n c. 10 * n + digit_val c) 0 ds"

text \<open>\<^verbatim>\<open>sep.join(xs)\<close>.\<close>

fun join_with :: "string \<Rightarrow> string list \<Rightarrow> string" where
  "join_with sep [] = []"
| "join_with sep [x] = x"
| "join_with sep (x # y # ys) = x @ sep @ join_with sep (y # ys)"

text \<open>\<^verbatim>\<open>s.split("\n")\<close>: always at least one piece; the last piece is the text after
  the last newline.\<close>

fun split_nl :: "string \<Rightarrow> string list" where
  "split_nl [] = [[]]"
| "split_nl (c # s) =
     (if c = NL then [] # split_nl s
      else (case split_nl s of l # ls \<Rightarrow> (c # l) # ls | [] \<Rightarrow> [[c]]))"

text \<open>\<^verbatim>\<open>sub in s\<close> and the text after the first occurrence of \<^verbatim>\<open>sub\<close>
  (\<^verbatim>\<open>s.split(sub, 1)[1]\<close>); \<^verbatim>\<open>s.index(sub)\<close> is the length of the text before it.\<close>

fun find_sub :: "string \<Rightarrow> string \<Rightarrow> (string \<times> string) option" where
  "find_sub sub [] = (if sub = [] then Some ([], []) else None)"
| "find_sub sub (c # s) =
     (if take (length sub) (c # s) = sub then Some ([], drop (length sub) (c # s))
      else (case find_sub sub s of None \<Rightarrow> None
            | Some (pre, post) \<Rightarrow> Some (c # pre, post)))"

subsection \<open>The placeholder pattern\<close>

text \<open>
  \<^verbatim>\<open>ID_PATTERN = r"\$\{?(\d+)\}?"\<close>. A match at the head of a string is a dollar sign, an
  optional opening brace, a maximal run of digits and an optional closing brace. When the
  brace is there and no digit follows it, giving the brace back does not help: the brace
  is not a digit. \<open>match_ID\<close> returns group 1 and the text after the match.
\<close>

definition opt_char :: "char \<Rightarrow> string \<Rightarrow> string" where
  "opt_char c s = (case s of [] \<Rightarrow> [] | x # r \<Rightarrow> if x = c then r else s)"

definition match_ID :: "string \<Rightarrow> (string \<times> string) option" where
  "match_ID s =
     (case s of [] \<Rightarrow> None
      | c # r \<Rightarrow>
          if c \<noteq> CHR ''$'' then None
          else let r1 = opt_char (CHR ''{'') r; ds = takeWhile is_digit r1
               in if ds = [] then None
                  else Some (ds, opt_char (CHR ''}'') (dropWhile is_digit r1)))"

lemma opt_char_length: "length (opt_char c s) \<le> length s"
  by (simp add: opt_char_def split: list.splits)

lemma match_ID_shorter:
  assumes "match_ID s = Some (ds, rest)"
  shows "length rest < length s"
proof -
  from assms obtain r where s: "s = CHR ''$'' # r"
    and rest: "rest = opt_char (CHR ''}'') (dropWhile is_digit (opt_char (CHR ''{'') r))"
    by (auto simp: match_ID_def Let_def split: list.splits if_splits)
  have "length rest \<le> length (dropWhile is_digit (opt_char (CHR ''{'') r))"
    unfolding rest by (rule opt_char_length)
  also have "\<dots> \<le> length (opt_char (CHR ''{'') r)"
    by (rule length_dropWhile_le)
  also have "\<dots> \<le> length r"
    by (rule opt_char_length)
  finally show ?thesis by (simp add: s)
qed

text \<open>\<^verbatim>\<open>re.findall(ID_PATTERN, s)\<close>: group 1 of the non-overlapping matches, left to right.\<close>

function findall_ID :: "string \<Rightarrow> string list" where
  "findall_ID [] = []"
| "findall_ID (c # r) =
     (case match_ID (c # r) of
        None \<Rightarrow> findall_ID r
      | Some (ds, rest) \<Rightarrow> ds # findall_ID rest)"
  by pat_completeness auto
termination
  by (relation "measure length") (auto dest: match_ID_shorter)

text \<open>\<^verbatim>\<open>re.sub(ID_PATTERN, repl, s)\<close>; \<open>repl\<close> gets group 0 (the matched text) and
  group 1 of each match.\<close>

function sub_ID :: "(string \<Rightarrow> string \<Rightarrow> string) \<Rightarrow> string \<Rightarrow> string" where
  "sub_ID repl [] = []"
| "sub_ID repl (c # r) =
     (case match_ID (c # r) of
        None \<Rightarrow> c # sub_ID repl r
      | Some (ds, rest) \<Rightarrow>
          repl (take (Suc (length r) - length rest) (c # r)) ds @ sub_ID repl rest)"
  by pat_completeness auto
termination
  by (relation "measure (\<lambda>(repl, s). length s)") (auto dest: match_ID_shorter)

subsection \<open>Values and their text\<close>

text \<open>
  Argument values and observations are Python values. The model has the variant the
  specification names: string, number (integers), boolean, null, list and mapping;
  a mapping keeps its items in insertion order.
\<close>

datatype pyval =
    VStr string
  | VInt int
  | VBool bool
  | VNone
  | VList "pyval list"
  | VDict "(pyval \<times> pyval) list"

text \<open>\<^verbatim>\<open>str(n)\<close> for an integer.\<close>

fun str_nat :: "nat \<Rightarrow> string" where
  "str_nat n =
     (if n < 10 then [''0123456789'' ! n]
      else str_nat (n div 10) @ [''0123456789'' ! (n mod 10)])"

declare str_nat.simps [simp del]

definition str_int :: "int \<Rightarrow> string" where
  "str_int i = (if i < 0 then CHR ''-'' # str_nat (nat (- i)) else str_nat (nat i))"

text \<open>
  \<^verbatim>\<open>repr(s)\<close> for a string: single quotes, unless the string has a single quote and no
  double quote; the quote and the backslash are escaped, tab, newline and carriage return
  get their letter, other control characters are written \<^verbatim>\<open>\xNN\<close>.
\<close>

definition repr_quote :: "string \<Rightarrow> char" where
  "repr_quote s =
     (if CHR 0x27 \<in> set s \<and> CHR 0x22 \<notin> set s then CHR 0x22 else CHR 0x27)"

definition hex2 :: "nat \<Rightarrow> string" where
  "hex2 n = [''0123456789abcdef'' ! (n div 16 mod 16), ''0123456789abcdef'' ! (n mod 16)]"

definition repr_char :: "char \<Rightarrow> char \<Rightarrow> string" where
  "repr_char q c =
     (if c = q \<or> c = CHR 0x5C then [CHR 0x5C, c]
      else if c = CHR 0x09 then [CHR 0x5C, CHR ''t'']
      else if c = CHR 0x0A then [CHR 0x5C, CHR ''n'']
      else if c = CHR 0x0D then [CHR 0x5C, CHR ''r'']
      else if (of_char c :: nat) < 32 \<or> c = CHR 0x7F then CHR 0x5C # CHR ''x'' # hex2 (of_char c)
      else [c])"

definition repr_str :: "string \<Rightarrow> string" where
  "repr_str s = (let q = repr_quote s in q # concat (map (repr_char q) s) @ [q])"

primrec pyrepr :: "pyval \<Rightarrow> string" where
  "pyrepr (VStr s) = repr_str s"
| "pyrepr (VInt i) = str_int i"
| "pyrepr (VBool b) = (if b then ''True'' else ''False'')"
| "pyrepr VNone = ''None''"
| "pyrepr (VList vs) = ''['' @ join_with '', '' (map pyrepr vs) @ '']''"
| "pyrepr (VDict kvs) =
     ''{'' @ join_with '', '' (map (\<lambda>(k, v). k @ '': '' @ v) (map (map_prod pyrepr pyrepr) kvs)) @ ''}''"

text \<open>\<^verbatim>\<open>str(v)\<close>: a string is itself, every other value is its \<^verbatim>\<open>repr\<close>.\<close>

definition pystr :: "pyval \<Rightarrow> string" where
  "pystr v = (case v of VStr s \<Rightarrow> s | _ \<Rightarrow> pyrepr v)"


section \<open>The task model\<close>

text \<open>
  A tool of the registry (\<^verbatim>\<open>BaseTool\<close>) has a name, the ordered parameter names of its
  schema (\<^verbatim>\<open>tool.args.keys()\<close>) and \<^verbatim>\<open>invoke\<close>, which returns a value or raises; a raised
  exception is \<open>Inl\<close> of its \<^verbatim>\<open>repr\<close>. The \<^verbatim>\<open>tool\<close> field of a task is
  \<^verbatim>\<open>Union[BaseTool, str]\<close>.
\<close>

record BaseTool =
  name :: string
  args_keys :: "string list"
  invoke :: "(string \<times> pyval) list \<Rightarrow> string + pyval"

datatype ToolRef = StrTool string | ToolHandle BaseTool

record Task =
  idx :: int
  tool :: ToolRef
  args :: "(string \<times> pyval) list"
  dependencies :: "int list"
  thought :: "string option"

datatype error = OutputParserException string | KeyError int

section \<open>The plan parser\<close>

text \<open>
  \<^verbatim>\<open>_ast_parse\<close> is \<^verbatim>\<open>ast.literal_eval\<close> with the raw string as fallback: a total function
  from text to values. It belongs to the Python library and is a parameter \<open>lit\<close> of the
  parser.
\<close>

type_synonym literal_eval = "string \<Rightarrow> pyval"

text \<open>
  The loop of \<^verbatim>\<open>_parse_llm_compiler_action_args\<close> over the declared keys. Its state is the
  rest of the argument text, the key found last and the extracted arguments;
  \<^verbatim>\<open>prev_idx\<close> is 0 exactly when \<^verbatim>\<open>tool_key\<close> is set, so \<^verbatim>\<open>args[prev_idx:idx]\<close> is the
  text before the occurrence.
\<close>

fun scan_keys :: "literal_eval \<Rightarrow> string list \<Rightarrow> string \<Rightarrow> string option \<Rightarrow>
    (string \<times> pyval) list \<Rightarrow> string \<times> string option \<times> (string \<times> pyval) list" where
  "scan_keys lit [] a tool_key extracted = (a, tool_key, extracted)"
| "scan_keys lit (key # keys) a tool_key extracted =
     (case find_sub (key @ ''='') a of
        None \<Rightarrow> scan_keys lit keys a tool_key extracted
      | Some (pre, post) \<Rightarrow>
          scan_keys lit keys post (Some key)
            (case tool_key of
               None \<Rightarrow> extracted
             | Some k \<Rightarrow>
                 AList.update k (lit (rstrip (\<lambda>c. c = CHR '','') (strip pre))) extracted))"

definition parse_llm_compiler_action_args ::
    "literal_eval \<Rightarrow> string \<Rightarrow> ToolRef \<Rightarrow> (string \<times> pyval) list" where
  "parse_llm_compiler_action_args lit a t =
     (if a = [] then []
      else case t of
        StrTool s \<Rightarrow> []
      | ToolHandle h \<Rightarrow>
          (case scan_keys lit (args_keys h) a None [] of
             (a', None, extracted) \<Rightarrow> extracted
           | (a', Some k, extracted) \<Rightarrow>
               AList.update k
                 (lit (rstrip (\<lambda>c. c = CHR '')'') (rstrip (\<lambda>c. c = CHR '','') (strip a'))))
                 extracted))"

definition extract_deps :: "string \<Rightarrow> int list" where
  "extract_deps arg_str = map int_of_digits (findall_ID arg_str)"

definition get_dependencies_from_graph ::
    "int \<Rightarrow> string \<Rightarrow> (string \<times> pyval) list \<Rightarrow> int list" where
  "get_dependencies_from_graph i tool_name a =
     (if tool_name = ''join'' then [1..i - 1]
      else sort (remdups (concat (map (\<lambda>(k, v). extract_deps (pystr v)) a))))"

definition instantiate_task ::
    "literal_eval \<Rightarrow> BaseTool list \<Rightarrow> int \<Rightarrow> string \<Rightarrow> string \<Rightarrow> string option \<Rightarrow> error + Task" where
  "instantiate_task lit tools i tool_name a th =
     (case (if tool_name = ''join'' then Inr (StrTool ''join'')
            else case find (\<lambda>t. name t = tool_name) tools of
                   None \<Rightarrow> Inl (OutputParserException (''Tool '' @ tool_name @ '' not found.''))
                 | Some t \<Rightarrow> Inr (ToolHandle t)) of
        Inl e \<Rightarrow> Inl e
      | Inr t \<Rightarrow>
          (let tool_args = parse_llm_compiler_action_args lit a t
           in Inr \<lparr>idx = i, tool = t, args = tool_args,
                   dependencies = get_dependencies_from_graph i tool_name tool_args,
                   thought = th\<rparr>))"

text \<open>
  \<^verbatim>\<open>re.match(r"Thought: ([^\n]*)", line)\<close> gives group 1.
\<close>

definition match_thought :: "string \<Rightarrow> string option" where
  "match_thought line =
     (if take 9 line = ''Thought: '' then Some (takeWhile (\<lambda>c. c \<noteq> NL) (drop 9 line))
      else None)"

text \<open>
  \<^verbatim>\<open>re.match(r"\n*(\d+)\. (\w+)\((.*)\)(\s*#\w+\n)?", line)\<close> gives groups 1 to 3. The
  greedy runs of newlines, digits and word characters are maximal, since what follows
  each is not in its class. \<^verbatim>\<open>.*\<close> stops before a newline and is as long as possible, so
  group 3 ends at the last closing parenthesis before the first newline. The optional
  fourth group may be empty and does not change the other groups; the parser drops it.
\<close>

definition match_action :: "string \<Rightarrow> (string \<times> string \<times> string) option" where
  "match_action line =
     (let s0 = dropWhile (\<lambda>c. c = NL) line;
          ds = takeWhile is_digit s0;
          r1 = dropWhile is_digit s0;
          r2 = drop 2 r1;
          w = takeWhile is_word r2;
          r3 = dropWhile is_word r2
      in if ds = [] \<or> take 2 r1 \<noteq> ''. '' \<or> w = [] then None
         else case r3 of
           [] \<Rightarrow> None
         | c # r4 \<Rightarrow>
             (let seg = takeWhile (\<lambda>c. c \<noteq> NL) r4
              in if c = CHR ''('' \<and> CHR '')'' \<in> set seg
                 then Some (ds, w, rev (tl (dropWhile (\<lambda>c. c \<noteq> CHR '')'') (rev seg))))
                 else None))"

definition parse_task ::
    "literal_eval \<Rightarrow> BaseTool list \<Rightarrow> string \<Rightarrow> string option \<Rightarrow>
     error + (Task option \<times> string option)" where
  "parse_task lit tools line th =
     (case match_thought line of
        Some t \<Rightarrow> Inr (None, Some t)
      | None \<Rightarrow>
          (case match_action line of
             Some (ds, tool_name, a) \<Rightarrow>
               (case instantiate_task lit tools (int_of_digits ds) tool_name a th of
                  Inl e \<Rightarrow> Inl e
                | Inr task \<Rightarrow> Inr (Some task, None))
           | None \<Rightarrow> Inr (None, th)))"

text \<open>
  The loop over the complete lines (\<^verbatim>\<open>for line in ...\<close>) of \<^verbatim>\<open>ingest_token\<close>: the pairs it yields, and the
  exception that ended it, if any.
\<close>

fun parse_lines :: "literal_eval \<Rightarrow> BaseTool list \<Rightarrow> string list \<Rightarrow> string option \<Rightarrow>
    (Task \<times> string option) list \<times> error option" where
  "parse_lines lit tools [] th = ([], None)"
| "parse_lines lit tools (line # ls) th =
     (case parse_task lit tools line th of
        Inl e \<Rightarrow> ([], Some e)
      | Inr (t, th') \<Rightarrow>
          (case parse_lines lit tools ls th' of
             (ys, r) \<Rightarrow> ((case t of None \<Rightarrow> [] | Some task \<Rightarrow> [(task, th')]) @ ys, r)))"

text \<open>
  \<^verbatim>\<open>ingest_token\<close> returns what it yields and either the exception or the new buffer.
\<close>

definition ingest_token ::
    "literal_eval \<Rightarrow> BaseTool list \<Rightarrow> string \<Rightarrow> string list \<Rightarrow> string option \<Rightarrow>
     (Task \<times> string option) list \<times> (error + string list)" where
  "ingest_token lit tools token buffer th =
     (let buffer1 = buffer @ [token]
      in if NL \<in> set token
         then (let pieces = split_nl (concat buffer1);
                   suffix = last pieces
               in case parse_lines lit tools (butlast pieces) th of
                    (ys, Some e) \<Rightarrow> (ys, Inl e)
                  | (ys, None) \<Rightarrow> (ys, Inr [suffix]))
         else ([], Inr buffer1))"

text \<open>
  \<^verbatim>\<open>_transform\<close> over the fragments: the tasks it yields, in order, and the exception that
  ended the iteration, if any. Its \<^verbatim>\<open>thought\<close> is assigned from each pair that
  \<^verbatim>\<open>ingest_token\<close> yields.
\<close>

fun transform_chunks :: "literal_eval \<Rightarrow> BaseTool list \<Rightarrow> string list \<Rightarrow> string list \<Rightarrow>
    string option \<Rightarrow> Task list \<times> error option" where
  "transform_chunks lit tools [] texts th =
     (if texts \<noteq> []
      then (case parse_task lit tools (concat texts) th of
              Inl e \<Rightarrow> ([], Some e)
            | Inr (t, th') \<Rightarrow> ((case t of None \<Rightarrow> [] | Some task \<Rightarrow> [task]), None))
      else ([], None))"
| "transform_chunks lit tools (chunk # chunks) texts th =
     (case ingest_token lit tools chunk texts th of
        (ys, Inl e) \<Rightarrow> (map fst ys, Some e)
      | (ys, Inr texts') \<Rightarrow>
          (case transform_chunks lit tools chunks texts' (foldl (\<lambda>t y. snd y) th ys) of
             (ts, r) \<Rightarrow> (map fst ys @ ts, r)))"

definition transform :: "literal_eval \<Rightarrow> BaseTool list \<Rightarrow> string list \<Rightarrow> Task list \<times> error option" where
  "transform lit tools chunks = transform_chunks lit tools chunks [] None"

text \<open>\<^verbatim>\<open>parse(text) = list(self._transform(text))\<close>: the list, or the exception.\<close>

definition parse :: "literal_eval \<Rightarrow> BaseTool list \<Rightarrow> string \<Rightarrow> error + Task list" where
  "parse lit tools text =
     (case transform lit tools [text] of
        (ts, None) \<Rightarrow> Inr ts
      | (ts, Some e) \<Rightarrow> Inl e)"


subsection \<open>The dependency resolver in the specification's words\<close>

text \<open>
  The specification describes the dependencies of a task that is not the join as the
  integers of the placeholders \<^verbatim>\<open>${k}\<close> and \<^verbatim>\<open>$k\<close> found by scanning every argument
  value, recursing into the values it contains. The definitions of this subsection follow
  that description, not the code. A number is read as a decimal numeral: the value of a
  digit is its place in \<^verbatim>\<open>0123456789\<close>, the last digit counts units and each digit before
  it ten times more. \<open>spec_placeholder_at\<close> looks at the text after a dollar sign for one
  of the two forms: an opening brace, digits and a closing brace, or digits alone.
  \<open>placeholders_in\<close> does so at every dollar sign of a string, and \<open>ids_in_value\<close> walks a
  value: a string is scanned, the items of a list and the keys and values of a mapping
  are walked, other values have no placeholder.
\<close>

definition spec_digit :: "char \<Rightarrow> int" where
  "spec_digit c = int (length (takeWhile (\<lambda>d. d \<noteq> c) ''0123456789''))"

primrec spec_number_rev :: "string \<Rightarrow> int" where
  "spec_number_rev [] = 0"
| "spec_number_rev (c # cs) = spec_digit c + 10 * spec_number_rev cs"

definition spec_number :: "string \<Rightarrow> int" where
  "spec_number ds = spec_number_rev (rev ds)"

definition spec_placeholder_at :: "string \<Rightarrow> int list" where
  "spec_placeholder_at r =
     (case r of
        [] \<Rightarrow> []
      | c # r' \<Rightarrow>
          if c = CHR ''{''
          then (let ds = takeWhile is_digit r'
                in if ds \<noteq> [] \<and> take 1 (dropWhile is_digit r') = ''}''
                   then [spec_number ds] else [])
          else (let ds = takeWhile is_digit r
                in if ds \<noteq> [] then [spec_number ds] else []))"

primrec placeholders_in :: "(string \<Rightarrow> int list) \<Rightarrow> string \<Rightarrow> int list" where
  "placeholders_in form [] = []"
| "placeholders_in form (c # r) =
     (if c = CHR ''$'' then form r else []) @ placeholders_in form r"

primrec ids_in_value :: "(string \<Rightarrow> int list) \<Rightarrow> pyval \<Rightarrow> int list" where
  "ids_in_value form (VStr s) = placeholders_in form s"
| "ids_in_value form (VInt i) = []"
| "ids_in_value form (VBool b) = []"
| "ids_in_value form VNone = []"
| "ids_in_value form (VList vs) = concat (map (ids_in_value form) vs)"
| "ids_in_value form (VDict kvs) =
     concat (map (\<lambda>(k, v). k @ v) (map (map_prod (ids_in_value form) (ids_in_value form)) kvs))"

definition spec_placeholder_ids :: "pyval \<Rightarrow> int list" where
  "spec_placeholder_ids v = ids_in_value spec_placeholder_at v"

text \<open>
  The amended description has a third form: an opening brace and digits with no closing
  brace after them, \<^verbatim>\<open>${k\<close>.
\<close>

definition amended_placeholder_at :: "string \<Rightarrow> int list" where
  "amended_placeholder_at r =
     (case r of
        [] \<Rightarrow> []
      | c # r' \<Rightarrow>
          if c = CHR ''{''
          then (let ds = takeWhile is_digit r'
                in if ds \<noteq> [] then [spec_number ds] else [])
          else (let ds = takeWhile is_digit r
                in if ds \<noteq> [] then [spec_number ds] else []))"

definition amended_placeholder_ids :: "pyval \<Rightarrow> int list" where
  "amended_placeholder_ids v = ids_in_value amended_placeholder_at v"

section \<open>The executor\<close>

text \<open>
  The observation table is a Python dict from task id to result: an association list
  with distinct keys, written with \<^const>\<open>AList.update\<close> (a new key goes to the end, an
  old key keeps its place), read with \<^const>\<open>map_of\<close>.
\<close>

type_synonym obs_table = "(int \<times> pyval) list"

text \<open>\<^verbatim>\<open>replace_match\<close>: \<^verbatim>\<open>str(observations.get(idx, match.group(0)))\<close>.\<close>

definition replace_match :: "obs_table \<Rightarrow> string \<Rightarrow> string \<Rightarrow> string" where
  "replace_match observations group0 group1 =
     (case map_of observations (int_of_digits group1) of
        Some v \<Rightarrow> pystr v
      | None \<Rightarrow> group0)"

fun resolve_arg :: "pyval \<Rightarrow> obs_table \<Rightarrow> pyval" where
  "resolve_arg (VStr s) observations = VStr (sub_ID (replace_match observations) s)"
| "resolve_arg (VList vs) observations = VList (map (\<lambda>a. resolve_arg a observations) vs)"
| "resolve_arg v observations = v"

text \<open>
  \<^verbatim>\<open>_execute_task\<close>. Resolution works on values of \<^typ>\<open>pyval\<close> and has no operation
  that can raise on them, so its \<^verbatim>\<open>except\<close> branch is not reached; the tool may raise,
  and then the result is the error text.
\<close>

definition execute_task :: "Task \<Rightarrow> obs_table \<Rightarrow> pyval" where
  "execute_task task observations =
     (case tool task of
        StrTool s \<Rightarrow> VStr s
      | ToolHandle t \<Rightarrow>
          (case invoke t (map (\<lambda>(key, val). (key, resolve_arg val observations)) (args task)) of
             Inl e \<Rightarrow> VStr (''ERROR: Failed to execute '' @ name t @ ''. '' @ e)
           | Inr r \<Rightarrow> r))"

text \<open>\<^verbatim>\<open>schedule_task\<close> writes the result under the task's id; it returns the new table.\<close>

definition schedule_task :: "Task \<Rightarrow> obs_table \<Rightarrow> obs_table" where
  "schedule_task task observations =
     AList.update (idx task) (execute_task task observations) observations"

section \<open>The scheduler\<close>

datatype message =
    FunctionMessage (msg_name: string) (content: pyval) (msg_idx: "int option") (tool_call_id: string)
  | OtherMessage

text \<open>\<^verbatim>\<open>_get_observations\<close>: the seed of the table, read from the history backwards.\<close>

definition get_observations :: "message list \<Rightarrow> obs_table" where
  "get_observations messages =
     foldl (\<lambda>results m.
              case m of
                FunctionMessage n c (Some i) tc \<Rightarrow> AList.update i c results
              | _ \<Rightarrow> results)
       [] (rev messages)"

text \<open>
  One scheduling pass has the main thread, which pulls the tasks one by one, and the
  workers of the pool, one for each deferred task. The state of a pass is the rest of the
  task stream, the deferred tasks that have not run yet, the observation table and
  \<^verbatim>\<open>task_names\<close>. \<open>history\<close> is not program state: it records each execution, with the
  table as it was when the execution began.
\<close>

record sched =
  tasks_iter :: "Task list"
  futures :: "Task list"
  observations :: obs_table
  task_names :: "(int \<times> string) list"
  history :: "(Task \<times> obs_table) list"

text \<open>The test of both \<^verbatim>\<open>schedule_tasks\<close> and \<^verbatim>\<open>schedule_pending_task\<close>:
  \<^verbatim>\<open>deps and any(dep not in observations for dep in deps)\<close>.\<close>

definition deps_unmet :: "Task \<Rightarrow> obs_table \<Rightarrow> bool" where
  "deps_unmet task obs =
     (dependencies task \<noteq> [] \<and> list_ex (\<lambda>dep. dep \<notin> set (map fst obs)) (dependencies task))"

definition tool_name_of :: "Task \<Rightarrow> string" where
  "tool_name_of task = (case tool task of StrTool s \<Rightarrow> s | ToolHandle t \<Rightarrow> name t)"

definition run_task :: "Task \<Rightarrow> sched \<Rightarrow> sched" where
  "run_task task s =
     s\<lparr>observations := schedule_task task (observations s),
       history := history s @ [(task, observations s)]\<rparr>"

text \<open>
  The interleaving of the threads is a list of events. \<open>Pull\<close> is one turn of the main
  loop: it takes the next task, records its tool name, and either submits it to the pool
  or runs it inline. \<open>Poll i\<close> is one turn of the \<open>i\<close>-th deferred worker's loop: it sleeps
  again, or runs its task and is done. A task's execution is one step.
\<close>

datatype event = Pull | Poll nat

fun step :: "event \<Rightarrow> sched \<Rightarrow> sched" where
  "step Pull s =
     (case tasks_iter s of
        [] \<Rightarrow> s
      | task # rest \<Rightarrow>
          (let s1 = s\<lparr>tasks_iter := rest,
                      task_names := AList.update (idx task) (tool_name_of task) (task_names s)\<rparr>
           in if deps_unmet task (observations s1)
              then s1\<lparr>futures := futures s1 @ [task]\<rparr>
              else run_task task s1))"
| "step (Poll i) s =
     (if i < length (futures s)
      then (let task = futures s ! i
            in if deps_unmet task (observations s) then s
               else run_task task (s\<lparr>futures := take i (futures s) @ drop (Suc i) (futures s)\<rparr>))
      else s)"

definition init_sched :: "message list \<Rightarrow> Task list \<Rightarrow> sched" where
  "init_sched messages tasks =
     \<lparr>tasks_iter = tasks, futures = [], observations = get_observations messages,
      task_names = [], history = []\<rparr>"

definition run_pass :: "message list \<Rightarrow> Task list \<Rightarrow> event list \<Rightarrow> sched" where
  "run_pass messages tasks script = fold step script (init_sched messages tasks)"

text \<open>The loop that builds \<^verbatim>\<open>tool_messages\<close>; a missing key raises \<^verbatim>\<open>KeyError\<close>.\<close>

fun tool_messages :: "(int \<times> string) list \<Rightarrow> obs_table \<Rightarrow> int list \<Rightarrow> error + message list" where
  "tool_messages names obs [] = Inr []"
| "tool_messages names obs (k # ks) =
     (case map_of names k of
        None \<Rightarrow> Inl (KeyError k)
      | Some n \<Rightarrow>
          (case map_of obs k of
             None \<Rightarrow> Inl (KeyError k)
           | Some v \<Rightarrow>
               (case tool_messages names obs ks of
                  Inl e \<Rightarrow> Inl e
                | Inr ms \<Rightarrow> Inr (FunctionMessage n (VStr (pystr v)) (Some k) (str_int k) # ms))))"

text \<open>
  \<^verbatim>\<open>schedule_tasks\<close> under an interleaving: \<open>None\<close> while the stream has tasks left or a
  deferred worker has not finished (\<^verbatim>\<open>wait(futures)\<close> has not returned), else the records
  or the exception of the final loop.
\<close>

definition schedule_tasks ::
    "message list \<Rightarrow> Task list \<Rightarrow> event list \<Rightarrow> (error + message list) option" where
  "schedule_tasks messages tasks script =
     (let originals = map fst (get_observations messages);
          s = run_pass messages tasks script
      in if tasks_iter s = [] \<and> futures s = []
         then Some (tool_messages (task_names s) (observations s)
                      (sort (filter (\<lambda>k. k \<notin> set originals) (map fst (observations s)))))
         else None)"

subsection \<open>Notions used in the proofs\<close>

text \<open>
  A text is safe to follow a match of the placeholder pattern when it does not begin with
  a character the match could still take: a digit or a brace. \<open>esc\<close> is the body of a
  string's \<^verbatim>\<open>repr\<close>, between the quotes.
\<close>

definition special :: "char \<Rightarrow> bool" where
  "special c = (is_digit c \<or> c = CHR ''{'' \<or> c = CHR ''}'')"

definition safe :: "string \<Rightarrow> bool" where
  "safe t = (case t of [] \<Rightarrow> True | c # r \<Rightarrow> \<not> special c)"

definition quote_char :: "char \<Rightarrow> bool" where
  "quote_char q = (q = CHR 0x27 \<or> q = CHR 0x22)"

definition esc :: "char \<Rightarrow> string \<Rightarrow> string" where
  "esc q s = concat (map (repr_char q) s)"

text \<open>
  \<open>leaf_ids\<close> applies the code's matcher to the strings inside a value, where the code
  applies it to the text of the whole value.
\<close>

primrec leaf_ids :: "pyval \<Rightarrow> int list" where
  "leaf_ids (VStr s) = extract_deps s"
| "leaf_ids (VInt i) = []"
| "leaf_ids (VBool b) = []"
| "leaf_ids VNone = []"
| "leaf_ids (VList vs) = concat (map leaf_ids vs)"
| "leaf_ids (VDict kvs) =
     concat (map (\<lambda>(k, v). k @ v) (map (map_prod leaf_ids leaf_ids) kvs))"

section \<open>Properties of the parser\<close>

lemma split_nl_nonempty: "split_nl s \<noteq> []"
  by (induction s) (auto split: list.splits)

lemma split_nl_no_NL: "NL \<notin> set s \<Longrightarrow> split_nl s = [s]"
  by (induction s) auto

lemma split_nl_append_NL:
  "split_nl (a @ NL # b) = butlast (split_nl a) @ last (split_nl a) # split_nl b"
  by (induction a) (auto simp: split_nl_nonempty split: list.splits)

lemma split_nl_last_NL:
  assumes "s \<noteq> []" "last s = NL"
  shows "last (split_nl s) = []"
proof -
  have "s = butlast s @ NL # []"
    using assms by (metis append_butlast_last_id)
  then have "split_nl s = butlast (split_nl (butlast s)) @ last (split_nl (butlast s)) # split_nl []"
    by (metis split_nl_append_NL)
  then show ?thesis by simp
qed

lemma split_nl_append_line:
  assumes "NL \<notin> set line"
  shows "split_nl (a @ line) = butlast (split_nl a) @ [last (split_nl a) @ line]"
  using assms by (induction a) (auto simp: split_nl_nonempty split_nl_no_NL split: list.splits)

lemma parse_lines_append:
  "parse_lines lit tools (xs @ zs) th =
     (case parse_lines lit tools xs th of
        (ys, Some e) \<Rightarrow> (ys, Some e)
      | (ys, None) \<Rightarrow>
          (case parse_lines lit tools zs
                  (foldl (\<lambda>t l. case parse_task lit tools l t of Inr (u, t') \<Rightarrow> t' | Inl e \<Rightarrow> t) th xs) of
             (ys', r) \<Rightarrow> (ys @ ys', r)))"
  by (induction xs arbitrary: th) (auto split: sum.splits prod.splits option.splits)

lemma match_action_not_thought:
  "match_action line = Some r \<Longrightarrow> match_thought line = None"
  by (cases line)
    (auto simp: match_action_def match_thought_def Let_def is_digit_def split: if_splits list.splits)

lemma parse_task_unknown_tool:
  assumes "match_action line = Some (ds, tool_name, a)"
    and "tool_name \<noteq> ''join''"
    and "tool_name \<notin> set (map name tools)"
  shows "parse_task lit tools line th =
           Inl (OutputParserException (''Tool '' @ tool_name @ '' not found.''))"
proof -
  have "find (\<lambda>t. name t = tool_name) tools = None"
    using assms(3) by (auto simp: find_None_iff)
  then show ?thesis
    using assms(1,2) match_action_not_thought[OF assms(1)]
    by (simp add: parse_task_def instantiate_task_def)
qed

lemma parse_task_empty: "parse_task lit tools [] th = Inr (None, th)"
  by (simp add: parse_task_def match_thought_def match_action_def)

lemma transform_single:
  "transform lit tools [text] =
     (if NL \<in> set text
      then (case parse_lines lit tools (butlast (split_nl text)) None of
              (ys, Some e) \<Rightarrow> (map fst ys, Some e)
            | (ys, None) \<Rightarrow>
                (case parse_task lit tools (last (split_nl text)) (foldl (\<lambda>t y. snd y) None ys) of
                   Inl e \<Rightarrow> (map fst ys, Some e)
                 | Inr (t, th') \<Rightarrow>
                     (map fst ys @ (case t of None \<Rightarrow> [] | Some task \<Rightarrow> [task]), None)))
      else (case parse_task lit tools text None of
              Inl e \<Rightarrow> ([], Some e)
            | Inr (t, th') \<Rightarrow> ((case t of None \<Rightarrow> [] | Some task \<Rightarrow> [task]), None)))"
  by (auto simp: transform_def ingest_token_def Let_def split: prod.splits option.splits sum.splits)


text \<open>
  C6. A join task with id \<open>n\<close> depends on exactly the ids \<open>1\<close> to \<open>n - 1\<close>, whatever its
  argument text is, and its tool is the sentinel string: the registry is not consulted,
  even when it has a tool named join.
\<close>

theorem join_dependencies:
  "instantiate_task lit tools n ''join'' a th =
     Inr \<lparr>idx = n, tool = StrTool ''join'', args = [], dependencies = [1..n - 1], thought = th\<rparr>
   \<and> set (get_dependencies_from_graph n ''join'' b) = {1..n - 1}"
  by (simp add: instantiate_task_def parse_llm_compiler_action_args_def
      get_dependencies_from_graph_def)

text \<open>
  C1. Parsing a plan text in one fragment and parsing the same text split into fragments
  should give the same tasks. With a thought line and an action line, the single
  fragment gives the task its thought; split between the two lines, the task has none:
  \<^verbatim>\<open>_transform\<close> takes the thought only from the pairs \<^verbatim>\<open>ingest_token\<close> yields, and those
  are yielded after a task, when the thought is cleared.
\<close>

theorem fragment_split_thought_lost:
  "transform VStr [] [''Thought: x'' @ [NL] @ ''1. join()'' @ [NL]] =
     ([\<lparr>idx = 1, tool = StrTool ''join'', args = [], dependencies = [], thought = Some ''x''\<rparr>], None)
   \<and> transform VStr [] [''Thought: x'' @ [NL], ''1. join()'' @ [NL]] =
     ([\<lparr>idx = 1, tool = StrTool ''join'', args = [], dependencies = [], thought = None\<rparr>], None)"
  by (simp add: transform_def ingest_token_def parse_task_def match_thought_def match_action_def
      instantiate_task_def is_digit_def is_word_def parse_llm_compiler_action_args_def
      get_dependencies_from_graph_def int_of_digits_def digit_val_def)

lemma split_nl_pieces_no_NL: "l \<in> set (split_nl s) \<Longrightarrow> NL \<notin> set l"
proof (induction s arbitrary: l)
  case Nil
  then show ?case by simp
next
  case (Cons c s)
  then show ?case
    by (cases "split_nl s") (auto split: if_splits)
qed

lemma split_nl_last_no_NL: "NL \<notin> set (last (split_nl s))"
  using split_nl_pieces_no_NL[of "last (split_nl s)" s] split_nl_nonempty[of s] by simp

lemma ingest_token_buffer:
  assumes "ingest_token lit tools token buffer th = (ys, Inr buffer')"
    and "NL \<notin> set (concat buffer)"
  shows "NL \<notin> set (concat buffer')"
  using assms split_nl_last_no_NL[of "concat buffer @ token"]
  by (auto simp: ingest_token_def Let_def split: if_splits prod.splits option.splits)

lemma prefix_with_NL:
  assumes "a @ b = line @ NL # post" "NL \<in> set a" "NL \<notin> set line"
  shows "\<exists>p. a = line @ NL # p"
proof -
  from assms(1) consider us where "a = line @ us" "us @ b = NL # post"
    | us where "a @ us = line" "b = us @ NL # post"
    by (auto simp: append_eq_append_conv2)
  then show ?thesis
  proof cases
    case 1
    with assms(2,3) have "us \<noteq> []" by auto
    with 1 show ?thesis by (cases us) auto
  next
    case 2
    with assms(2,3) show ?thesis by auto
  qed
qed

lemma prefix_without_NL:
  assumes "a @ b = line @ suffix" "NL \<notin> set a" "suffix = [] \<or> hd suffix = NL"
  shows "\<exists>u. a @ u = line"
proof -
  from assms(1) consider us where "a = line @ us" "us @ b = suffix"
    | us where "a @ us = line" "b = us @ suffix"
    by (auto simp: append_eq_append_conv2)
  then show ?thesis
  proof cases
    case 1
    have "us = []"
    proof (rule ccontr)
      assume "us \<noteq> []"
      with 1 assms(3) have "hd us = NL" by (cases us) auto
      with \<open>us \<noteq> []\<close> have "NL \<in> set us" by (metis hd_in_set)
      with 1 assms(2) show False by simp
    qed
    with 1 show ?thesis by simp
  next
    case 2
    then show ?thesis by blast
  qed
qed

lemma bad_line_chunks:
  assumes bad: "\<And>th. parse_task lit tools line th = Inl e"
    and line: "NL \<notin> set line"
    and suffix: "suffix = [] \<or> hd suffix = NL"
  shows "concat texts @ concat cs = line @ suffix \<Longrightarrow> NL \<notin> set (concat texts) \<Longrightarrow>
         transform_chunks lit tools cs texts th = ([], Some e)"
proof (induction cs arbitrary: texts th)
  case Nil
  have ne: "line \<noteq> []"
    using bad[of None] by (auto simp: parse_task_empty)
  from Nil suffix have "suffix = []"
    by (cases suffix) auto
  with Nil have "concat texts = line" by simp
  with ne have "texts \<noteq> []" by auto
  with \<open>concat texts = line\<close> show ?case by (simp add: bad)
next
  case (Cons c cs)
  show ?case
  proof (cases "NL \<in> set c")
    case True
    have "NL \<in> set (concat texts @ c)" using True by simp
    moreover have "(concat texts @ c) @ concat cs = line @ suffix"
      using Cons.prems(1) by simp
    ultimately obtain post where sfx: "suffix = NL # post"
      using suffix line Cons.prems(2) True
      by (cases suffix) (auto simp: append_eq_append_conv2 Cons_eq_append_conv)
    obtain p where p: "concat texts @ c = line @ NL # p"
      using prefix_with_NL[of "concat texts @ c" "concat cs" line post] Cons.prems(1) True line sfx
      by auto
    have "split_nl (line @ NL # p) = line # split_nl p"
      using split_nl_append_NL[of line p] by (simp add: split_nl_no_NL[OF line])
    then have "butlast (split_nl (concat texts @ c)) = line # butlast (split_nl p)"
      by (simp add: p split_nl_nonempty)
    then show ?thesis
      using True by (simp add: ingest_token_def bad)
  next
    case False
    have "transform_chunks lit tools cs (texts @ [c]) th = ([], Some e)"
      by (rule Cons.IH) (use Cons.prems False in auto)
    then show ?thesis
      using False by (simp add: ingest_token_def)
  qed
qed

lemma unknown_tool_chunks:
  assumes bad: "\<And>th. parse_task lit tools line th = Inl e"
    and line: "NL \<notin> set line"
    and suffix: "suffix = [] \<or> hd suffix = NL"
    and rest: "y @ concat cs2 = line @ suffix"
  shows "transform_chunks lit tools (cs1 @ [x]) texts th = (ts, None) \<Longrightarrow>
         NL \<notin> set (concat texts) \<Longrightarrow>
         concat texts @ concat cs1 @ x = [] \<or> last (concat texts @ concat cs1 @ x) = NL \<Longrightarrow>
         transform_chunks lit tools (cs1 @ (x @ y) # cs2) texts th = (ts, Some e)"
proof (induction cs1 arbitrary: texts th ts)
  case Nil
  show ?case
  proof (cases "x = []")
    case True
    with Nil have ct: "concat texts = []"
      by (metis append_Nil append_Nil2 concat.simps(1) last_in_set)
    have ts: "ts = []"
      using Nil.prems(1) True ct by (simp add: ingest_token_def parse_task_empty)
    have "transform_chunks lit tools (y # cs2) texts th = ([], Some e)"
      by (rule bad_line_chunks[OF bad line suffix]) (use ct rest in auto)
    with True ts show ?thesis by simp
  next
    case False
    with Nil.prems(3) have lx: "last x = NL" by simp
    with False have nx: "NL \<in> set x" by (metis last_in_set)
    let ?P = "concat texts @ x"
    have lastP: "last (split_nl ?P) = []"
      by (rule split_nl_last_NL) (use False lx in auto)
    obtain ys r where pl: "parse_lines lit tools (butlast (split_nl ?P)) th = (ys, r)"
      by (cases "parse_lines lit tools (butlast (split_nl ?P)) th")
    have r: "r = None"
      using Nil.prems(1) nx pl by (cases r) (auto simp: ingest_token_def)
    have ts: "ts = map fst ys"
      using Nil.prems(1) nx pl r lastP by (simp add: ingest_token_def parse_task_empty)
    show ?thesis
    proof (cases "NL \<in> set y")
      case True
      then have "suffix \<noteq> []" using rest line by (cases suffix) (auto simp: append_eq_append_conv2)
      then obtain post where sfx: "suffix = NL # post"
        using suffix by (cases suffix) auto
      obtain p where p: "y = line @ NL # p"
        using prefix_with_NL[of y "concat cs2" line post] rest True line sfx by auto
      have sp1: "split_nl (?P @ line) = butlast (split_nl ?P) @ [line]"
        using split_nl_append_line[OF line, of ?P] lastP by simp
      have "split_nl (?P @ line @ NL # p) = butlast (split_nl ?P) @ line # split_nl p"
        using split_nl_append_NL[of "?P @ line" p] sp1 by simp
      then have bl: "butlast (split_nl (concat texts @ x @ y)) =
          butlast (split_nl ?P) @ line # butlast (split_nl p)"
        by (simp add: p butlast_append split_nl_nonempty)
      have "parse_lines lit tools (butlast (split_nl ?P) @ line # butlast (split_nl p)) th =
          (ys, Some e)"
        by (simp add: parse_lines_append pl r bad)
      then show ?thesis
        using nx bl ts by (simp add: ingest_token_def)
    next
      case True': False
      have sp: "split_nl (concat texts @ x @ y) = butlast (split_nl ?P) @ [y]"
        using split_nl_append_line[OF True', of ?P] lastP by simp
      have "transform_chunks lit tools cs2 [y] th' = ([], Some e)" for th'
        by (rule bad_line_chunks[OF bad line suffix]) (use rest True' in auto)
      then show ?thesis
        using nx sp pl r ts by (simp add: ingest_token_def)
    qed
  qed
next
  case (Cons c cs1)
  obtain ys b where ing: "ingest_token lit tools c texts th = (ys, b)"
    by (cases "ingest_token lit tools c texts th")
  from Cons.prems(1) ing obtain texts' where b: "b = Inr texts'"
    by (cases b) auto
  obtain ts' r' where tc: "transform_chunks lit tools (cs1 @ [x]) texts' (foldl (\<lambda>t y. snd y) th ys) = (ts', r')"
    by (cases "transform_chunks lit tools (cs1 @ [x]) texts' (foldl (\<lambda>t y. snd y) th ys)")
  from Cons.prems(1) ing b tc have r': "r' = None" and ts: "ts = map fst ys @ ts'"
    by auto
  have nn: "NL \<notin> set (concat texts')"
    using ingest_token_buffer[OF ing[unfolded b] Cons.prems(2)] .
  have pp: "concat texts' @ concat cs1 @ x = [] \<or> last (concat texts' @ concat cs1 @ x) = NL"
  proof (cases "NL \<in> set c")
    case False
    with ing b have "texts' = texts @ [c]" by (simp add: ingest_token_def)
    with Cons.prems(3) show ?thesis by simp
  next
    case True
    with ing b have t': "texts' = [last (split_nl (concat texts @ c))]"
      by (auto simp: ingest_token_def Let_def split: prod.splits option.splits)
    show ?thesis
    proof (cases "concat cs1 @ x = []")
      case R: True
      with Cons.prems(3) True have "last (concat texts @ c) = NL" by auto
      then have "last (split_nl (concat texts @ c)) = []"
        using True by (intro split_nl_last_NL) auto
      with t' R show ?thesis by simp
    next
      case R: False
      then have "concat texts @ concat (c # cs1) @ x \<noteq> []" by simp
      with Cons.prems(3) have "last (concat texts @ concat (c # cs1) @ x) = NL" by blast
      then have "last ((concat texts @ c) @ (concat cs1 @ x)) = NL" by simp
      then have "last (concat cs1 @ x) = NL" using R by (metis last_appendR)
      with R t' show ?thesis by simp
    qed
  qed
  have "transform_chunks lit tools (cs1 @ (x @ y) # cs2) texts' (foldl (\<lambda>t y. snd y) th ys) = (ts', Some e)"
    by (rule Cons.IH[OF tc[unfolded r'] nn pp])
  then show ?case using ing b ts by simp
qed

text \<open>
  C7. An action line whose tool name is neither join nor the name of a registered tool
  makes the parse fail with an \<^verbatim>\<open>OutputParserException\<close>, for every way the text comes
  in fragments. The fragments \<open>cs1\<close> and the text \<open>x\<close> make up the lines before the
  offending line (whole lines that parse, yielding the tasks \<open>ts\<close>); the line begins
  inside the fragment \<open>x @ y\<close> and may run on through the fragments \<open>cs2\<close>, followed by
  the end of the input or a newline and any further text. The iteration yields the tasks
  \<open>ts\<close> and then raises: no task of the line or of the text after it is yielded. For
  a single fragment, \<^verbatim>\<open>parse\<close> returns no list at all.
\<close>

theorem unknown_tool_fatal:
  assumes act: "match_action line = Some (ds, tool_name, a)"
    and nj: "tool_name \<noteq> ''join''"
    and unk: "tool_name \<notin> set (map name tools)"
    and line: "NL \<notin> set line"
    and pre: "concat cs1 @ x = [] \<or> last (concat cs1 @ x) = NL"
    and ok: "transform lit tools (cs1 @ [x]) = (ts, None)"
    and rest: "y @ concat cs2 = line @ suffix"
    and suffix: "suffix = [] \<or> hd suffix = NL"
  shows "transform lit tools (cs1 @ (x @ y) # cs2) =
           (ts, Some (OutputParserException (''Tool '' @ tool_name @ '' not found.'')))
       \<and> (cs1 = [] \<and> cs2 = [] \<longrightarrow>
            parse lit tools (x @ line @ suffix) =
              Inl (OutputParserException (''Tool '' @ tool_name @ '' not found.'')))"
proof -
  let ?e = "OutputParserException (''Tool '' @ tool_name @ '' not found.'')"
  have bad: "parse_task lit tools line th = Inl ?e" for th
    by (rule parse_task_unknown_tool[OF act nj unk])
  have A: "transform_chunks lit tools (cs1 @ (x @ y) # cs2) [] None = (ts, Some ?e)"
    by (rule unknown_tool_chunks[OF bad line suffix rest]) (use ok pre in \<open>simp_all add: transform_def\<close>)
  then have B: "transform lit tools (cs1 @ (x @ y) # cs2) = (ts, Some ?e)"
    by (simp add: transform_def)
  have "parse lit tools (x @ line @ suffix) = Inl ?e" if "cs1 = []" "cs2 = []"
  proof -
    from that rest have "y = line @ suffix" by simp
    with B that show ?thesis by (simp add: parse_def)
  qed
  with B show ?thesis by blast
qed

theorem unknown_tool_fatal_witness:
  "transform VStr [\<lparr>name = ''search'', args_keys = [''query''], invoke = (\<lambda>a. Inr VNone)\<rparr>]
     [''1. join()'', NL # ''2. fo'', ''o(x)'' @ [NL], ''3. join()''] =
     ([\<lparr>idx = 1, tool = StrTool ''join'', args = [], dependencies = [], thought = None\<rparr>],
      Some (OutputParserException ''Tool foo not found.''))
   \<and> parse VStr [\<lparr>name = ''search'', args_keys = [''query''], invoke = (\<lambda>a. Inr VNone)\<rparr>]
       (''1. join()'' @ [NL] @ ''2. foo(x)'' @ [NL] @ ''3. join()'') =
     Inl (OutputParserException ''Tool foo not found.'')"
proof -
  let ?tools = "[\<lparr>name = ''search'', args_keys = [''query''], invoke = (\<lambda>a. Inr VNone)\<rparr>]"
  have act: "match_action ''2. foo(x)'' = Some (''2'', ''foo'', ''x'')"
    by (simp add: match_action_def is_digit_def is_word_def)
  have ok1: "transform VStr ?tools ([''1. join()''] @ [[NL]]) =
      ([\<lparr>idx = 1, tool = StrTool ''join'', args = [], dependencies = [], thought = None\<rparr>], None)"
    by (simp add: transform_def ingest_token_def parse_task_def match_thought_def match_action_def
        instantiate_task_def is_digit_def is_word_def parse_llm_compiler_action_args_def
        get_dependencies_from_graph_def int_of_digits_def digit_val_def)
  have ok2: "transform VStr ?tools ([] @ [''1. join()'' @ [NL]]) =
      ([\<lparr>idx = 1, tool = StrTool ''join'', args = [], dependencies = [], thought = None\<rparr>], None)"
    by (simp add: transform_def ingest_token_def parse_task_def match_thought_def match_action_def
        instantiate_task_def is_digit_def is_word_def parse_llm_compiler_action_args_def
        get_dependencies_from_graph_def int_of_digits_def digit_val_def)
  have A: "transform VStr ?tools [''1. join()'', NL # ''2. fo'', ''o(x)'' @ [NL], ''3. join()''] =
     ([\<lparr>idx = 1, tool = StrTool ''join'', args = [], dependencies = [], thought = None\<rparr>],
      Some (OutputParserException ''Tool foo not found.''))"
    using unknown_tool_fatal[where line = "''2. foo(x)''" and tools = ?tools and lit = VStr
        and ?cs1.0 = "[''1. join()'']" and x = "[NL]" and y = "''2. fo''"
        and ?cs2.0 = "[''o(x)'' @ [NL], ''3. join()'']" and suffix = "NL # ''3. join()''",
        OF act _ _ _ _ ok1]
    by simp
  have B: "parse VStr ?tools (''1. join()'' @ [NL] @ ''2. foo(x)'' @ [NL] @ ''3. join()'') =
     Inl (OutputParserException ''Tool foo not found.'')"
    using unknown_tool_fatal[where line = "''2. foo(x)''" and tools = ?tools and lit = VStr
        and ?cs1.0 = "[]" and x = "''1. join()'' @ [NL]" and y = "''2. foo(x)'' @ NL # ''3. join()''"
        and ?cs2.0 = "[]" and suffix = "NL # ''3. join()''",
        OF act _ _ _ _ ok2]
    by simp
  from A B show ?thesis by simp
qed

section \<open>Properties of the dependency resolver\<close>

lemma safe_Nil [simp]: "safe []"
  by (simp add: safe_def)

lemma safe_Cons [simp]: "safe (c # r) = (\<not> special c)"
  by (simp add: safe_def)

lemma takeWhile_digit_safe: "safe t \<Longrightarrow> takeWhile is_digit (a @ t) = takeWhile is_digit a"
  by (induction a) (auto simp: safe_def special_def split: list.splits)

lemma dropWhile_digit_safe: "safe t \<Longrightarrow> dropWhile is_digit (a @ t) = dropWhile is_digit a @ t"
  by (induction a) (auto simp: safe_def special_def split: list.splits)

lemma opt_char_safe:
  "safe t \<Longrightarrow> special x \<Longrightarrow> opt_char x (a @ t) = opt_char x a @ t"
  by (cases a) (auto simp: opt_char_def safe_def split: list.splits)

lemma special_braces [simp]: "special (CHR ''{'')" "special (CHR ''}'')"
  by (simp_all add: special_def)

lemma match_ID_append:
  assumes "safe t"
  shows "match_ID ((c # r) @ t) =
           map_option (\<lambda>(ds, rest). (ds, rest @ t)) (match_ID (c # r))"
  using assms
  by (simp add: match_ID_def Let_def opt_char_safe takeWhile_digit_safe dropWhile_digit_safe)

lemma findall_ID_append:
  "safe t \<Longrightarrow> findall_ID (a @ t) = findall_ID a @ findall_ID t"
proof (induction a rule: findall_ID.induct)
  case 1
  then show ?case by simp
next
  case (2 c r)
  show ?case
  proof (cases "match_ID (c # r)")
    case None
    with 2 show ?thesis
      using match_ID_append[OF "2.prems", of c r] by simp
  next
    case (Some p)
    obtain ds rest where p: "p = (ds, rest)" by (cases p)
    with Some 2 show ?thesis
      using match_ID_append[OF "2.prems", of c r] by simp
  qed
qed

lemma findall_ID_no_dollar:
  "CHR ''$'' \<notin> set a \<Longrightarrow> findall_ID (a @ t) = findall_ID t"
  by (induction a) (auto simp: match_ID_def)


lemma plain_facts:
  assumes "c \<in> set ''0123456789{}$''"
  shows "c \<noteq> CHR 0x27" "c \<noteq> CHR 0x22" "c \<noteq> CHR 0x5C" "c \<noteq> CHR 0x09" "c \<noteq> CHR 0x0A"
    "c \<noteq> CHR 0x0D" "\<not> (of_char c :: nat) < 32" "c \<noteq> CHR 0x7F"
  using assms by auto

lemma repr_char_plain:
  assumes "quote_char q" "special c \<or> c = CHR ''$''"
  shows "repr_char q c = [c]"
proof -
  have "c \<in> set ''0123456789{}$''"
    using assms(2) by (auto simp: special_def is_digit_def)
  from plain_facts[OF this] assms(1) show ?thesis
    by (auto simp: repr_char_def quote_char_def)
qed

lemma hex_digit: "''0123456789abcdef'' ! (n mod 16) \<in> set ''0123456789abcdef''"
  by (rule nth_mem) simp

lemma hex2_no_dollar: "CHR ''$'' \<notin> set (hex2 n)"
proof -
  have "CHR ''$'' \<notin> set ''0123456789abcdef''" by simp
  with hex_digit[of n] hex_digit[of "n div 16"] show ?thesis
    unfolding hex2_def by (metis empty_iff empty_set set_ConsD)
qed

lemma repr_char_other:
  assumes "quote_char q" "\<not> special c" "c \<noteq> CHR ''$''"
  shows "\<exists>h tl. repr_char q c = h # tl \<and> \<not> special h \<and> h \<noteq> CHR ''$'' \<and> CHR ''$'' \<notin> set tl"
proof -
  have bs: "\<not> special (CHR 0x5C)"
    by (simp add: special_def is_digit_def)
  show ?thesis
    unfolding repr_char_def
    using assms(2,3) hex2_no_dollar[of "of_char c"] bs by simp
qed

lemma esc_Nil [simp]: "esc q [] = []"
  by (simp add: esc_def)

lemma esc_Cons: "esc q (c # r) = repr_char q c @ esc q r"
  by (simp add: esc_def)

lemma esc_takeWhile:
  "quote_char q \<Longrightarrow> safe t \<Longrightarrow> takeWhile is_digit (esc q r @ t) = takeWhile is_digit r"
proof (induction r)
  case Nil
  then show ?case using takeWhile_digit_safe[of t "[]"] by simp
next
  case (Cons c r)
  show ?case
  proof (cases "special c \<or> c = CHR ''$''")
    case True
    with Cons show ?thesis by (simp add: esc_Cons repr_char_plain)
  next
    case False
    then obtain h tl where "repr_char q c = h # tl" "\<not> special h"
      using repr_char_other[of q c] Cons.prems by auto
    with False show ?thesis by (simp add: esc_Cons special_def)
  qed
qed

lemma esc_dropWhile:
  "quote_char q \<Longrightarrow> safe t \<Longrightarrow>
   dropWhile is_digit (esc q r @ t) = esc q (dropWhile is_digit r) @ t"
proof (induction r)
  case Nil
  then show ?case using dropWhile_digit_safe[of t "[]"] by simp
next
  case (Cons c r)
  show ?case
  proof (cases "special c \<or> c = CHR ''$''")
    case True
    with Cons show ?thesis by (simp add: esc_Cons repr_char_plain)
  next
    case False
    then obtain h tl where "repr_char q c = h # tl" "\<not> special h"
      using repr_char_other[of q c] Cons.prems by auto
    with False show ?thesis by (simp add: esc_Cons special_def)
  qed
qed

lemma esc_opt_char:
  assumes "quote_char q" "safe t" "special x"
  shows "opt_char x (esc q r @ t) = esc q (opt_char x r) @ t"
proof (cases r)
  case Nil
  then show ?thesis using opt_char_safe[OF assms(2,3), of "[]"] by (simp add: opt_char_def)
next
  case (Cons c r')
  show ?thesis
  proof (cases "special c \<or> c = CHR ''$''")
    case True
    with Cons assms show ?thesis by (simp add: esc_Cons repr_char_plain opt_char_def)
  next
    case False
    then obtain h tl where "repr_char q c = h # tl" "\<not> special h"
      using repr_char_other[of q c] assms(1) by auto
    with False Cons assms(3) show ?thesis
      by (auto simp: esc_Cons opt_char_def)
  qed
qed

lemma match_ID_esc:
  assumes "quote_char q" "safe t"
  shows "match_ID (esc q (c # r) @ t) =
           map_option (\<lambda>(ds, rest). (ds, esc q rest @ t)) (match_ID (c # r))"
proof (cases "c = CHR ''$''")
  case True
  then have "esc q (c # r) @ t = CHR ''$'' # esc q r @ t"
    using assms(1) by (simp add: esc_Cons repr_char_plain)
  then show ?thesis
    using True assms
    by (simp add: match_ID_def Let_def esc_opt_char esc_takeWhile esc_dropWhile)
next
  case False
  then obtain h tl where "repr_char q c = h # tl" "h \<noteq> CHR ''$''"
    using repr_char_other[of q c] repr_char_plain[of q c] assms(1)
    by (cases "special c") auto
  with False show ?thesis by (simp add: esc_Cons match_ID_def)
qed

lemma findall_ID_esc:
  assumes "quote_char q" "safe t"
  shows "findall_ID (esc q s @ t) = findall_ID s @ findall_ID t"
proof (induction s rule: findall_ID.induct)
  case 1
  then show ?case by simp
next
  case (2 c r)
  obtain h tl where rc: "repr_char q c = h # tl" and tl: "CHR ''$'' \<notin> set tl"
    using repr_char_other[of q c] repr_char_plain[of q c] assms(1)
    by (cases "special c \<or> c = CHR ''$''") auto
  have m: "match_ID (h # tl @ esc q r @ t) =
             map_option (\<lambda>(ds, rest). (ds, esc q rest @ t)) (match_ID (c # r))"
    using match_ID_esc[OF assms, of c r] rc by (simp add: esc_Cons)
  show ?case
  proof (cases "match_ID (c # r)")
    case None
    with m have "findall_ID (h # tl @ esc q r @ t) = findall_ID (tl @ esc q r @ t)"
      by simp
    also have "\<dots> = findall_ID (esc q r @ t)"
      using tl by (rule findall_ID_no_dollar)
    finally show ?thesis using None 2 rc by (simp add: esc_Cons)
  next
    case (Some p)
    obtain ds rest where p: "p = (ds, rest)" by (cases p)
    with Some m 2 rc show ?thesis by (simp add: esc_Cons)
  qed
qed

lemma digit_char_no_dollar: "k < 10 \<Longrightarrow> ''0123456789'' ! k \<noteq> CHR ''$''"
proof -
  assume "k < 10"
  then have "''0123456789'' ! k \<in> set ''0123456789''" by (intro nth_mem) simp
  then show ?thesis by auto
qed

lemma str_nat_no_dollar: "CHR ''$'' \<notin> set (str_nat n)"
proof (induction n rule: str_nat.induct)
  case (1 n)
  show ?case
  proof (cases "n < 10")
    case True
    then show ?thesis using digit_char_no_dollar[of n] by (subst str_nat.simps) simp
  next
    case False
    have "n mod 10 < 10" by simp
    from digit_char_no_dollar[OF this] 1 False show ?thesis
      by (subst str_nat.simps) simp
  qed
qed

lemma str_int_no_dollar: "CHR ''$'' \<notin> set (str_int i)"
  by (simp add: str_int_def str_nat_no_dollar)

lemma quote_char_repr_quote: "quote_char (repr_quote s)"
  by (simp add: quote_char_def repr_quote_def)

lemma findall_ID_repr_str:
  "findall_ID (repr_str s @ t) = findall_ID s @ findall_ID t"
proof -
  let ?q = "repr_quote s"
  have q: "quote_char ?q" by (rule quote_char_repr_quote)
  then have nd: "CHR ''$'' \<notin> set [?q]" and sf: "safe (?q # t)"
    by (auto simp: quote_char_def special_def is_digit_def)
  have "findall_ID (repr_str s @ t) = findall_ID ([?q] @ esc ?q s @ ?q # t)"
    by (simp add: repr_str_def Let_def esc_def)
  also have "\<dots> = findall_ID (esc ?q s @ ?q # t)"
    using nd by (rule findall_ID_no_dollar)
  also have "\<dots> = findall_ID s @ findall_ID ([?q] @ t)"
    using findall_ID_esc[OF q sf] by simp
  also have "findall_ID ([?q] @ t) = findall_ID t"
    using nd by (rule findall_ID_no_dollar)
  finally show ?thesis .
qed

lemma extract_deps_no_dollar:
  "CHR ''$'' \<notin> set a \<Longrightarrow> extract_deps (a @ t) = extract_deps t"
  by (simp add: extract_deps_def findall_ID_no_dollar)

lemma extract_deps_repr_str:
  "extract_deps (repr_str s @ t) = extract_deps s @ extract_deps t"
  by (simp add: extract_deps_def findall_ID_repr_str)

lemma extract_deps_join:
  assumes "\<And>x t. x \<in> set xs \<Longrightarrow> extract_deps (f x @ t) = g x @ extract_deps t"
  shows "extract_deps (join_with '', '' (map f xs) @ t) = concat (map g xs) @ extract_deps t"
  using assms
proof (induction xs)
  case Nil
  then show ?case by simp
next
  case (Cons x xs)
  show ?case
  proof (cases xs)
    case Nil
    with Cons.prems show ?thesis by simp
  next
    case (Cons y ys)
    have "extract_deps (join_with '', '' (map f (x # xs)) @ t) =
          extract_deps (f x @ ('', '' @ join_with '', '' (map f xs) @ t))"
      using Cons by simp
    also have "\<dots> = g x @ extract_deps ('', '' @ join_with '', '' (map f xs) @ t)"
      using Cons.prems by simp
    also have "extract_deps ('', '' @ join_with '', '' (map f xs) @ t) =
               extract_deps (join_with '', '' (map f xs) @ t)"
      by (rule extract_deps_no_dollar) simp
    also have "\<dots> = concat (map g xs) @ extract_deps t"
      using Cons.IH Cons.prems by simp
    finally show ?thesis by simp
  qed
qed

lemma extract_deps_pyrepr:
  "extract_deps (pyrepr v @ t) = leaf_ids v @ extract_deps t"
proof (induction v arbitrary: t)
  case (VStr s)
  show ?case by (simp add: extract_deps_repr_str)
next
  case (VInt i)
  show ?case by (simp add: extract_deps_no_dollar str_int_no_dollar)
next
  case (VBool b)
  show ?case
    using extract_deps_no_dollar[of "''True''" t] extract_deps_no_dollar[of "''False''" t]
    by (cases b) simp_all
next
  case VNone
  show ?case using extract_deps_no_dollar[of "''None''" t] by simp
next
  case (VList vs)
  have "extract_deps (pyrepr (VList vs) @ t) =
        extract_deps (''['' @ join_with '', '' (map pyrepr vs) @ '']'' @ t)"
    by simp
  also have "\<dots> = extract_deps (join_with '', '' (map pyrepr vs) @ '']'' @ t)"
    by (rule extract_deps_no_dollar) simp
  also have "\<dots> = concat (map leaf_ids vs) @ extract_deps ('']'' @ t)"
    by (rule extract_deps_join) (rule VList)
  also have "extract_deps ('']'' @ t) = extract_deps t"
    by (rule extract_deps_no_dollar) simp
  finally show ?case by simp
next
  case (VDict kvs)
  let ?f = "\<lambda>kv. pyrepr (fst kv) @ '': '' @ pyrepr (snd kv)"
  let ?g = "\<lambda>kv. leaf_ids (fst kv) @ leaf_ids (snd kv)"
  have item: "extract_deps (?f kv @ u) = ?g kv @ extract_deps u" if "kv \<in> set kvs" for kv u
  proof -
    have k: "extract_deps (pyrepr (fst kv) @ w) = leaf_ids (fst kv) @ extract_deps w" for w
      using VDict(1)[OF that, of "fst kv" w] by (cases kv) simp
    have v: "extract_deps (pyrepr (snd kv) @ w) = leaf_ids (snd kv) @ extract_deps w" for w
      using VDict(2)[OF that, of "snd kv" w] by (cases kv) simp
    have "extract_deps (?f kv @ u) = extract_deps (pyrepr (fst kv) @ ('': '' @ pyrepr (snd kv) @ u))"
      by simp
    also have "\<dots> = leaf_ids (fst kv) @ extract_deps ('': '' @ pyrepr (snd kv) @ u)"
      by (rule k)
    also have "extract_deps ('': '' @ pyrepr (snd kv) @ u) = extract_deps (pyrepr (snd kv) @ u)"
      by (rule extract_deps_no_dollar) simp
    finally show ?thesis by (simp add: v)
  qed
  have r: "map (\<lambda>(k, v). k @ '': '' @ v) (map (map_prod pyrepr pyrepr) kvs) = map ?f kvs"
    by (simp add: case_prod_beta)
  have g: "map (\<lambda>(k, v). k @ v) (map (map_prod leaf_ids leaf_ids) kvs) = map ?g kvs"
    by (simp add: case_prod_beta)
  have pr: "pyrepr (VDict kvs) = ''{'' @ join_with '', '' (map ?f kvs) @ ''}''"
    by (simp only: pyrepr.simps r)
  have sp: "leaf_ids (VDict kvs) = concat (map ?g kvs)"
    by (simp only: leaf_ids.simps g)
  have "extract_deps (pyrepr (VDict kvs) @ t) =
        extract_deps (''{'' @ join_with '', '' (map ?f kvs) @ ''}'' @ t)"
    unfolding pr by simp
  also have "\<dots> = extract_deps (join_with '', '' (map ?f kvs) @ ''}'' @ t)"
    by (rule extract_deps_no_dollar) simp
  also have "\<dots> = concat (map ?g kvs) @ extract_deps (''}'' @ t)"
    by (rule extract_deps_join) (rule item)
  also have "extract_deps (''}'' @ t) = extract_deps t"
    by (rule extract_deps_no_dollar) simp
  finally show ?case unfolding sp .
qed

lemma extract_deps_pystr: "extract_deps (pystr v) = leaf_ids v"
proof (cases v)
  case (VStr s)
  then show ?thesis by (simp add: pystr_def)
next
  case (VInt i)
  then show ?thesis using extract_deps_pyrepr[of v "[]"] by (simp add: pystr_def extract_deps_def)
next
  case (VBool b)
  then show ?thesis using extract_deps_pyrepr[of v "[]"] by (simp add: pystr_def extract_deps_def)
next
  case VNone
  then show ?thesis using extract_deps_pyrepr[of v "[]"] by (simp add: pystr_def extract_deps_def)
next
  case (VList vs)
  then show ?thesis using extract_deps_pyrepr[of v "[]"] by (simp add: pystr_def extract_deps_def)
next
  case (VDict kvs)
  then show ?thesis using extract_deps_pyrepr[of v "[]"] by (simp add: pystr_def extract_deps_def)
qed

lemma digit_val_spec_all: "\<forall>c \<in> set ''0123456789''. digit_val c = spec_digit c"
  by (simp add: digit_val_def spec_digit_def)

lemma digit_val_spec: "is_digit c \<Longrightarrow> digit_val c = spec_digit c"
  unfolding is_digit_def using digit_val_spec_all by blast

lemma int_of_digits_spec:
  "\<forall>c \<in> set ds. is_digit c \<Longrightarrow> int_of_digits ds = spec_number ds"
proof (induction ds rule: rev_induct)
  case Nil
  show ?case by (simp add: int_of_digits_def spec_number_def)
next
  case (snoc c ds)
  then have "int_of_digits ds = spec_number ds" and "digit_val c = spec_digit c"
    by (simp_all add: digit_val_spec)
  then show ?case by (simp add: int_of_digits_def spec_number_def)
qed

lemma opt_char_split: "\<exists>p. s = p @ opt_char c s \<and> set p \<subseteq> {c}"
proof (cases s)
  case Nil
  then show ?thesis by (simp add: opt_char_def)
next
  case (Cons x r)
  show ?thesis
  proof (cases "x = c")
    case True
    with Cons have "s = [c] @ opt_char c s \<and> set [c] \<subseteq> {c}" by (simp add: opt_char_def)
    then show ?thesis by blast
  next
    case False
    with Cons have "s = [] @ opt_char c s \<and> set [] \<subseteq> {c}" by (simp add: opt_char_def)
    then show ?thesis by blast
  qed
qed

lemma match_ID_parts:
  assumes "match_ID s = Some (ds, rest)"
  shows "\<exists>p. s = CHR ''$'' # p @ rest \<and> CHR ''$'' \<notin> set p"
    and "ds \<noteq> []" and "\<forall>c \<in> set ds. is_digit c"
proof -
  from assms obtain r where s: "s = CHR ''$'' # r"
    and ds: "ds = takeWhile is_digit (opt_char (CHR ''{'') r)" "ds \<noteq> []"
    and rest: "rest = opt_char (CHR ''}'') (dropWhile is_digit (opt_char (CHR ''{'') r))"
    by (auto simp: match_ID_def Let_def split: list.splits if_splits)
  show "ds \<noteq> []" by (rule ds(2))
  show dig: "\<forall>c \<in> set ds. is_digit c"
    unfolding ds(1) by (auto dest: set_takeWhileD)
  obtain p1 where p1: "r = p1 @ opt_char (CHR ''{'') r" "set p1 \<subseteq> {CHR ''{''}"
    using opt_char_split by blast
  obtain p3 where p3: "dropWhile is_digit (opt_char (CHR ''{'') r) = p3 @ rest" "set p3 \<subseteq> {CHR ''}''}"
    unfolding rest using opt_char_split by blast
  have "opt_char (CHR ''{'') r = ds @ dropWhile is_digit (opt_char (CHR ''{'') r)"
    unfolding ds(1) by simp
  then have "r = (p1 @ ds @ p3) @ rest"
    using p1(1) p3(1) by (metis append.assoc)
  moreover have "CHR ''$'' \<notin> set (p1 @ ds @ p3)"
  proof -
    have "\<not> is_digit (CHR ''$'')" by (simp add: is_digit_def)
    with dig have "CHR ''$'' \<notin> set ds" by blast
    moreover have "CHR ''$'' \<notin> set p1" "CHR ''$'' \<notin> set p3"
      using p1(2) p3(2) by auto
    ultimately show ?thesis by simp
  qed
  ultimately show "\<exists>p. s = CHR ''$'' # p @ rest \<and> CHR ''$'' \<notin> set p"
    using s by blast
qed

lemma amended_placeholder_at_opt:
  "amended_placeholder_at r =
     (if takeWhile is_digit (opt_char (CHR ''{'') r) = [] then []
      else [spec_number (takeWhile is_digit (opt_char (CHR ''{'') r))])"
  by (cases r) (simp_all add: amended_placeholder_at_def opt_char_def Let_def)

lemma placeholders_in_no_dollar:
  "CHR ''$'' \<notin> set p \<Longrightarrow> placeholders_in form (p @ t) = placeholders_in form t"
  by (induction p) auto

lemma extract_deps_amended: "extract_deps s = placeholders_in amended_placeholder_at s"
proof (induction s rule: findall_ID.induct)
  case 1
  show ?case by (simp add: extract_deps_def)
next
  case (2 c r)
  show ?case
  proof (cases "match_ID (c # r)")
    case None
    have "c = CHR ''$'' \<Longrightarrow> amended_placeholder_at r = []"
      using None by (simp add: match_ID_def amended_placeholder_at_opt Let_def split: if_splits)
    moreover have "extract_deps (c # r) = extract_deps r"
      using None by (simp add: extract_deps_def)
    moreover have "extract_deps r = placeholders_in amended_placeholder_at r"
      using 2(1)[OF None] by (simp add: extract_deps_def)
    ultimately show ?thesis by simp
  next
    case (Some m)
    obtain ds rest where m: "m = (ds, rest)" by (cases m)
    have mm: "match_ID (c # r) = Some (ds, rest)" using Some m by simp
    from match_ID_parts(1)[OF mm] obtain p where p: "c = CHR ''$''" "r = p @ rest" "CHR ''$'' \<notin> set p"
      by auto
    have ds: "ds = takeWhile is_digit (opt_char (CHR ''{'') r)"
      using mm by (auto simp: match_ID_def Let_def split: if_splits)
    have "amended_placeholder_at r = [spec_number ds]"
      using match_ID_parts(2)[OF mm] ds by (simp add: amended_placeholder_at_opt)
    moreover have "int_of_digits ds = spec_number ds"
      by (rule int_of_digits_spec) (rule match_ID_parts(3)[OF mm])
    moreover have "extract_deps (c # r) = int_of_digits ds # extract_deps rest"
      using mm by (simp add: extract_deps_def)
    moreover have "extract_deps rest = placeholders_in amended_placeholder_at rest"
      using 2(2)[OF Some m[symmetric]] by (simp add: extract_deps_def)
    moreover have "placeholders_in amended_placeholder_at r = placeholders_in amended_placeholder_at rest"
      unfolding p(2) by (rule placeholders_in_no_dollar) (rule p(3))
    ultimately show ?thesis using p(1) by simp
  qed
qed

lemma leaf_ids_amended: "leaf_ids v = amended_placeholder_ids v"
  unfolding amended_placeholder_ids_def
proof (induction v)
  case (VStr s)
  show ?case by (simp add: extract_deps_amended)
next
  case (VList vs)
  then have m: "map leaf_ids vs = map (ids_in_value amended_placeholder_at) vs"
    by simp
  show ?case by (simp only: leaf_ids.simps ids_in_value.simps m)
next
  case (VDict kvs)
  have "map_prod leaf_ids leaf_ids kv =
        map_prod (ids_in_value amended_placeholder_at) (ids_in_value amended_placeholder_at) kv"
    if "kv \<in> set kvs" for kv
    using VDict(1)[OF that, of "fst kv"] VDict(2)[OF that, of "snd kv"] by (cases kv) simp
  then have "map (map_prod leaf_ids leaf_ids) kvs =
        map (map_prod (ids_in_value amended_placeholder_at) (ids_in_value amended_placeholder_at)) kvs"
    by (intro map_cong) auto
  then show ?case by (simp only: leaf_ids.simps ids_in_value.simps)
qed simp_all

lemma spec_placeholder_at_subset:
  "set (spec_placeholder_at r) \<subseteq> set (amended_placeholder_at r)"
  by (cases r) (auto simp: spec_placeholder_at_def amended_placeholder_at_def Let_def)

lemma placeholders_in_mono:
  assumes "\<And>r. set (f r) \<subseteq> set (g r)"
  shows "set (placeholders_in f s) \<subseteq> set (placeholders_in g s)"
  using assms by (induction s) auto

lemma ids_in_value_mono:
  assumes "\<And>r. set (f r) \<subseteq> set (g r)"
  shows "set (ids_in_value f v) \<subseteq> set (ids_in_value g v)"
proof (induction v)
  case (VStr s)
  show ?case using placeholders_in_mono[of f g s] assms by simp
next
  case (VList vs)
  then show ?case by auto
next
  case (VDict kvs)
  have e: "set (ids_in_value h (VDict kvs)) =
      (\<Union>kv \<in> set kvs. set (ids_in_value h (fst kv)) \<union> set (ids_in_value h (snd kv)))" for h
    by (auto simp: case_prod_beta)
  have A: "set (ids_in_value f (fst kv)) \<subseteq> set (ids_in_value g (fst kv))" if "kv \<in> set kvs" for kv
    using VDict(1)[OF that, of "fst kv"] by (cases kv) simp
  have B: "set (ids_in_value f (snd kv)) \<subseteq> set (ids_in_value g (snd kv))" if "kv \<in> set kvs" for kv
    using VDict(2)[OF that, of "snd kv"] by (cases kv) simp
  show ?case unfolding e using A B by blast
qed simp_all

lemma spec_ids_subset: "set (spec_placeholder_ids v) \<subseteq> set (amended_placeholder_ids v)"
  unfolding spec_placeholder_ids_def amended_placeholder_ids_def
  by (rule ids_in_value_mono) (rule spec_placeholder_at_subset)

text \<open>
  C5. The dependencies of a task that is not the join should be the integers of the
  placeholders \<^verbatim>\<open>${k}\<close> and \<^verbatim>\<open>$k\<close> in its argument values. The pattern of the code does
  not ask for the closing brace: for the argument \<^verbatim>\<open>${1\<close>, which has neither form, the
  code gives the dependency 1.
\<close>

theorem unclosed_brace_is_dependency:
  "get_dependencies_from_graph 2 ''search'' [(''query'', VStr ''${1'')] = [1]
   \<and> spec_placeholder_ids (VStr ''${1'') = []"
  by (simp add: get_dependencies_from_graph_def pystr_def extract_deps_def match_ID_def
      opt_char_def is_digit_def int_of_digits_def digit_val_def spec_placeholder_ids_def
      spec_placeholder_at_def)

text \<open>
  C5, amended. For a task that is not the join, the dependencies computed by the code
  from the text of each whole argument value are the integers of the placeholders
  \<^verbatim>\<open>${k}\<close>, \<^verbatim>\<open>$k\<close> and \<^verbatim>\<open>${k\<close> found by walking the values (strings, and the strings
  inside nested lists and mappings), sorted ascending without duplicates; every
  placeholder of the two forms of the specification is among them.
\<close>

theorem dependencies_are_placeholder_ids:
  assumes "tool_name \<noteq> ''join''"
  shows "get_dependencies_from_graph i tool_name a =
           sort (remdups (concat (map (\<lambda>(k, v). amended_placeholder_ids v) a)))
       \<and> sorted (get_dependencies_from_graph i tool_name a)
       \<and> distinct (get_dependencies_from_graph i tool_name a)
       \<and> set (concat (map (\<lambda>(k, v). spec_placeholder_ids v) a))
           \<subseteq> set (get_dependencies_from_graph i tool_name a)"
proof -
  have eq: "get_dependencies_from_graph i tool_name a =
      sort (remdups (concat (map (\<lambda>(k, v). amended_placeholder_ids v) a)))"
    using assms by (simp add: get_dependencies_from_graph_def extract_deps_pystr leaf_ids_amended)
  have "set (concat (map (\<lambda>(k, v). spec_placeholder_ids v) a))
      \<subseteq> set (concat (map (\<lambda>(k, v). amended_placeholder_ids v) a))"
    using spec_ids_subset by fastforce
  with eq show ?thesis by simp
qed

theorem dependencies_are_placeholder_ids_witness:
  "get_dependencies_from_graph 3 ''search''
     [(''query'', VList [VStr ''$12 and ${7}'', VList [VStr ''${12x'']]), (''k'', VInt 5),
      (''opts'', VDict [(VStr ''ref'', VStr ''$305'')])] = [7, 12, 305]"
  using dependencies_are_placeholder_ids[of "''search''" 3
      "[(''query'', VList [VStr ''$12 and ${7}'', VList [VStr ''${12x'']]), (''k'', VInt 5),
        (''opts'', VDict [(VStr ''ref'', VStr ''$305'')])]"]
  by (simp add: amended_placeholder_ids_def amended_placeholder_at_def is_digit_def
      spec_number_def spec_digit_def)

text \<open>
  C10. When an argument value is a mapping whose text has a placeholder for \<open>k\<close>, the
  dependencies of the task contain \<open>k\<close>, so the scheduler defers the task while \<open>k\<close> has
  no observation; yet \<^verbatim>\<open>_resolve_arg\<close> returns a mapping as it is, whatever the table
  holds, and the tool gets the argument with the placeholder still in it.
\<close>

theorem mapping_placeholder_not_substituted:
  assumes "tool_name \<noteq> ''join''"
    and "(key, VDict d) \<in> set a"
    and "k \<in> set (extract_deps (pystr (VDict d)))"
  shows "k \<in> set (get_dependencies_from_graph i tool_name a)
       \<and> resolve_arg (VDict d) obs = VDict d
       \<and> (key, VDict d) \<in> set (map (\<lambda>(key, val). (key, resolve_arg val obs)) a)
       \<and> (k \<in> set (map fst obs) \<or>
            deps_unmet \<lparr>idx = i, tool = t, args = a,
                         dependencies = get_dependencies_from_graph i tool_name a,
                         thought = th\<rparr> obs)"
proof -
  have k: "k \<in> set (get_dependencies_from_graph i tool_name a)"
    using assms by (force simp: get_dependencies_from_graph_def)
  have r: "(key, VDict d) \<in> set (map (\<lambda>(key, val). (key, resolve_arg val obs)) a)"
    using assms(2) by force
  from k have "k \<in> set (map fst obs) \<or>
      deps_unmet \<lparr>idx = i, tool = t, args = a,
                   dependencies = get_dependencies_from_graph i tool_name a,
                   thought = th\<rparr> obs"
    by (auto simp: deps_unmet_def list_ex_iff)
  with k r show ?thesis by simp
qed

theorem mapping_placeholder_not_substituted_witness:
  "1 \<in> set (get_dependencies_from_graph 2 ''search'' [(''query'', VDict [(VStr ''q'', VStr ''$1'')])])
   \<and> resolve_arg (VDict [(VStr ''q'', VStr ''$1'')]) [(1, VStr ''done'')] =
       VDict [(VStr ''q'', VStr ''$1'')]"
proof -
  have "(1::int) \<in> set (extract_deps (pystr (VDict [(VStr ''q'', VStr ''$1'')])))"
    by (simp only: extract_deps_pystr)
      (simp add: extract_deps_def match_ID_def opt_char_def is_digit_def
        int_of_digits_def digit_val_def)
  from mapping_placeholder_not_substituted[where tool_name = "''search''" and key = "''query''"
      and d = "[(VStr ''q'', VStr ''$1'')]" and a = "[(''query'', VDict [(VStr ''q'', VStr ''$1'')])]"
      and k = 1 and i = 2 and obs = "[(1, VStr ''done'')]", OF _ _ this]
  show ?thesis by simp
qed


section \<open>Properties of the executor\<close>









end
